theory Spec2Isabelle
  imports Main "HOL-Library.Word" "HOL-Library.Monad_Syntax"
begin

section \<open>The film canister node (fc-node3/firmware/main.c)\<close>

text \<open>
  The firmware is one endless loop.  Each pass first runs the block guarded by
  \<^verbatim>\<open>wakes == WAKE_FREQ\<close> (build and send a packet, reset the wake counter, advance the
  sequence id, update the power mode) or else increments \<^verbatim>\<open>wakes\<close>; then it sleeps
  (lines 212 to 244), which reads the power mode and writes hardware registers only.
  The model below is the first part of the loop body, lines 122 to 210, called a cycle
  tick.  The globals of the C file are the fields of one record, the two sensors are inputs
  of the tick, and what the tick does to the outside world is returned as a list of
  events.  Delays and hardware registers are left out.  Every store through the packet
  pointer is checked against the 64 bytes of \<^verbatim>\<open>packetbuf\<close>: a store or a string scan
  outside them makes the tick return \<open>None\<close>.
\<close>

subsection \<open>Node configuration\<close>

type_synonym byte = "8 word"

abbreviation ascii :: "string \<Rightarrow> byte list" where
  "ascii \<equiv> map of_char"

definition NODE_ID :: string where
  "NODE_ID = ''JH9''"

definition HOPS :: string where
  "HOPS = ''1''"

definition WAKE_FREQ :: nat where
  "WAKE_FREQ = 5"

definition TX_POWER_DBM :: nat where
  "TX_POWER_DBM = 10"

definition POWER_MODE_WDT_THRESH :: nat where
  "POWER_MODE_WDT_THRESH = 1350"

definition POWER_MODE_WDT_HYST :: nat where
  "POWER_MODE_WDT_HYST = 50"

subsection \<open>Globals\<close>

datatype power_mode_t = MODE_WDT | MODE_BOOSTOFF

text \<open>The enumerators' values: \<^verbatim>\<open>MODE_WDT = 0\<close>, then \<^verbatim>\<open>MODE_BOOSTOFF\<close>.\<close>

fun power_mode_val :: "power_mode_t \<Rightarrow> nat" where
  "power_mode_val MODE_WDT = 0"
| "power_mode_val MODE_BOOSTOFF = 1"

definition PACKETBUF_SIZE :: nat where
  "PACKETBUF_SIZE = 64"

text \<open>
  \<open>packetbuf\<close> is the memory at and after the array, addressed by offset; only the offsets
  below \<open>PACKETBUF_SIZE\<close> belong to it.  \<open>p\<close> is the packet pointer as an offset into it;
  at power-on it points nowhere, and every composition of a packet first sets it to the
  start of the buffer.  \<^verbatim>\<open>char\<close> is a byte, and a string is a list of bytes.
\<close>

record node =
  seqid :: byte
  wakes :: byte
  packetbuf :: "nat \<Rightarrow> byte"
  p :: nat
  batt_mv :: "16 word"
  power_mode :: power_mode_t

definition init_node :: node where
  "init_node = \<lparr> seqid = of_char CHR ''a'', wakes = of_nat WAKE_FREQ,
                 packetbuf = (\<lambda>_. 0), p = 0, batt_mv = 0,
                 power_mode = MODE_BOOSTOFF \<rparr>"

subsection \<open>Battery voltage\<close>

text \<open>
  \<^verbatim>\<open>get_batt_voltage\<close>: the 16-bit ADC data register is widened to \<^verbatim>\<open>uint32_t\<close>,
  scaled, and the quotient cast to \<^verbatim>\<open>uint16_t\<close>.
\<close>

definition get_batt_voltage :: "16 word \<Rightarrow> 16 word" where
  "get_batt_voltage adc = (let r = (ucast adc :: 32 word) in ucast ((r * 3300) div 1024))"

subsection \<open>The C library calls on the packet buffer\<close>

text \<open>Decimal digits, most significant first, as \<^verbatim>\<open>utoa(v, s, 10)\<close> leaves them.\<close>

definition digit_byte :: "nat \<Rightarrow> byte" where
  "digit_byte d = of_char CHR ''0'' + of_nat d"

function utoa_digits :: "nat \<Rightarrow> byte list" where
  "utoa_digits n =
     (if n < 10 then [digit_byte n] else utoa_digits (n div 10) @ [digit_byte (n mod 10)])"
  by pat_completeness auto
termination
  by (relation "measure id") auto

declare utoa_digits.simps [simp del]

text \<open>
  \<^verbatim>\<open>dtostrf(val, 1, 1, s)\<close> prints \<open>val\<close> with one decimal place and no padding.  The
  temperature is carried as the number of tenths of a degree that this rendering shows
  (\<open>214\<close> for 21.4 degrees); the binary floating-point value behind it is not modelled.
\<close>

definition dtostrf_digits :: "int \<Rightarrow> byte list" where
  "dtostrf_digits t =
     (if t < 0 then ascii ''-'' else []) @ utoa_digits (nat \<bar>t\<bar> div 10) @ ascii ''.''
       @ [digit_byte (nat \<bar>t\<bar> mod 10)]"

text \<open>\<^verbatim>\<open>*p++ = c\<close>\<close>

definition store_byte :: "byte \<Rightarrow> node \<Rightarrow> node option" where
  "store_byte c s =
     (if p s < PACKETBUF_SIZE
      then Some (s\<lparr>packetbuf := (packetbuf s)(p s := c), p := p s + 1\<rparr>)
      else None)"

text \<open>\<^verbatim>\<open>*p = '\0'\<close>\<close>

definition store_nul :: "node \<Rightarrow> node option" where
  "store_nul s =
     (if p s < PACKETBUF_SIZE then Some (s\<lparr>packetbuf := (packetbuf s)(p s := 0)\<rparr>) else None)"

text \<open>
  \<^verbatim>\<open>strcpy\<close>, \<^verbatim>\<open>utoa\<close> and \<^verbatim>\<open>dtostrf\<close> each leave a string and its terminating zero at
  \<open>p\<close>, without moving \<open>p\<close>; the bytes written are the offsets \<open>p\<close> to \<open>p + length x\<close>.
\<close>

primrec poke :: "byte list \<Rightarrow> nat \<Rightarrow> (nat \<Rightarrow> byte) \<Rightarrow> (nat \<Rightarrow> byte)" where
  "poke [] i m = m(i := 0)"
| "poke (c # cs) i m = poke cs (Suc i) (m(i := c))"

definition write_str :: "byte list \<Rightarrow> node \<Rightarrow> node option" where
  "write_str x s =
     (if p s + length x < PACKETBUF_SIZE
      then Some (s\<lparr>packetbuf := poke x (p s) (packetbuf s)\<rparr>)
      else None)"

definition strcpy :: "string \<Rightarrow> node \<Rightarrow> node option" where
  "strcpy x = write_str (ascii x)"

definition utoa :: "nat \<Rightarrow> node \<Rightarrow> node option" where
  "utoa v = write_str (utoa_digits v)"

definition dtostrf :: "int \<Rightarrow> node \<Rightarrow> node option" where
  "dtostrf t = write_str (dtostrf_digits t)"

text \<open>
  \<^verbatim>\<open>strlen\<close>: the scan for the terminating zero, which must be met inside the buffer.
  \<open>find_nul m i\<close> is the offset of the first zero at or after \<open>i\<close>.
\<close>

function find_nul :: "(nat \<Rightarrow> byte) \<Rightarrow> nat \<Rightarrow> nat option" where
  "find_nul m i =
     (if PACKETBUF_SIZE \<le> i then None
      else if m i = 0 then Some i
      else find_nul m (Suc i))"
  by pat_completeness auto
termination
  by (relation "measure (\<lambda>(m, i). PACKETBUF_SIZE - i)") auto

declare find_nul.simps [simp del]

definition strlen :: "(nat \<Rightarrow> byte) \<Rightarrow> nat \<Rightarrow> nat option" where
  "strlen m i = map_option (\<lambda>e. e - i) (find_nul m i)"

text \<open>\<^verbatim>\<open>p += strlen(p)\<close>\<close>

definition advance :: "node \<Rightarrow> node option" where
  "advance s = do { n \<leftarrow> strlen (packetbuf s) (p s); Some (s\<lparr>p := p s + n\<rparr>) }"

subsection \<open>The cycle tick\<close>

datatype event =
    Sample_Voltage "16 word"
  | Sample_Temperature int
  | Encode_Packet "byte list"
  | Radio_Send "byte list" nat

text \<open>
  Lines 137 to 176: the packet is composed in \<open>packetbuf\<close>.  \<open>adc\<close> is what the ADC data
  register holds when the conversion is done, \<open>temp\<close> what the DS18B20 reports, in tenths
  of a degree.
\<close>

definition encode_packet :: "16 word \<Rightarrow> int \<Rightarrow> node \<Rightarrow> node option" where
  "encode_packet adc temp s0 = do {
     let s = s0\<lparr>p := 0\<rparr>;
     s \<leftarrow> strcpy HOPS s;
     s \<leftarrow> advance s;
     s \<leftarrow> store_byte (seqid s) s;
     s \<leftarrow> store_byte (of_char CHR ''V'') s;
     let s = s\<lparr>batt_mv := get_batt_voltage adc\<rparr>;
     s \<leftarrow> utoa (unat (batt_mv s)) s;
     s \<leftarrow> advance s;
     s \<leftarrow> store_byte (of_char CHR ''T'') s;
     s \<leftarrow> dtostrf temp s;
     s \<leftarrow> advance s;
     s \<leftarrow> store_byte (of_char CHR ''X'') s;
     s \<leftarrow> utoa WAKE_FREQ s;
     s \<leftarrow> advance s;
     s \<leftarrow> store_byte (of_char CHR '','') s;
     s \<leftarrow> utoa TX_POWER_DBM s;
     s \<leftarrow> advance s;
     s \<leftarrow> store_byte (of_char CHR '','') s;
     s \<leftarrow> utoa (power_mode_val (power_mode s)) s;
     s \<leftarrow> advance s;
     s \<leftarrow> store_byte (of_char CHR ''['') s;
     s \<leftarrow> strcpy NODE_ID s;
     s \<leftarrow> advance s;
     s \<leftarrow> store_byte (of_char CHR '']'') s;
     store_nul s
   }"

text \<open>Lines 189 to 193.\<close>

definition next_seqid :: "byte \<Rightarrow> byte" where
  "next_seqid c = (if c = of_char CHR ''z'' then of_char CHR ''b'' else c + 1)"

text \<open>Lines 195 to 204.\<close>

definition update_power_mode :: "16 word \<Rightarrow> power_mode_t \<Rightarrow> power_mode_t" where
  "update_power_mode mv m =
     (if m = MODE_BOOSTOFF \<and> unat mv < POWER_MODE_WDT_THRESH then MODE_WDT
      else if m = MODE_WDT \<and> unat mv > POWER_MODE_WDT_THRESH + POWER_MODE_WDT_HYST
      then MODE_BOOSTOFF
      else m)"

text \<open>
  What \<^verbatim>\<open>rf69_send\<close> is given: \<open>packetbuf\<close> and \<^verbatim>\<open>strlen(packetbuf)\<close>, the bytes
  before the first zero.
\<close>

definition buffer_string :: "node \<Rightarrow> byte list option" where
  "buffer_string s = do { n \<leftarrow> strlen (packetbuf s) 0; Some (map (packetbuf s) [0..<n]) }"

text \<open>Lines 122 to 210: the body of the main loop, up to the sleep.\<close>

definition cycle_tick :: "16 word \<Rightarrow> int \<Rightarrow> node \<Rightarrow> (event list \<times> node) option" where
  "cycle_tick adc temp s0 =
     (if unat (wakes s0) = WAKE_FREQ then do {
        s \<leftarrow> encode_packet adc temp s0;
        pkt \<leftarrow> buffer_string s;
        let s = s\<lparr>wakes := 1\<rparr>;
        let s = s\<lparr>seqid := next_seqid (seqid s)\<rparr>;
        let s = s\<lparr>power_mode := update_power_mode (batt_mv s) (power_mode s)\<rparr>;
        Some ([Sample_Voltage adc, Sample_Temperature temp, Encode_Packet pkt,
               Radio_Send pkt TX_POWER_DBM], s)
      }
      else Some ([], s0\<lparr>wakes := wakes s0 + 1\<rparr>))"

text \<open>
  The loop itself never ends.  A run is a finite number of its passes, one pair of sensor
  readings for each; it returns what each pass did.
\<close>

fun run_ticks :: "(16 word \<times> int) list \<Rightarrow> node \<Rightarrow> (event list list \<times> node) option" where
  "run_ticks [] s = Some ([], s)"
| "run_ticks (i # ins) s = do {
     (evs, s1) \<leftarrow> cycle_tick (fst i) (snd i) s;
     (tr, s2) \<leftarrow> run_ticks ins s1;
     Some (evs # tr, s2)
   }"

text \<open>The states the node can be in after some passes of the loop, from power-on.\<close>

inductive reachable :: "node \<Rightarrow> bool" where
  reachable_init: "reachable init_node"
| reachable_tick: "reachable s \<Longrightarrow> cycle_tick adc temp s = Some (evs, s') \<Longrightarrow> reachable s'"

subsection \<open>Observations on a run\<close>

fun sent_packets :: "event list \<Rightarrow> byte list list" where
  "sent_packets [] = []"
| "sent_packets (Radio_Send pkt pw # es) = pkt # sent_packets es"
| "sent_packets (e # es) = sent_packets es"

text \<open>The numbers of the ticks on which a packet was sent, the first tick being \<open>k\<close>.\<close>

fun tx_ticks_from :: "nat \<Rightarrow> event list list \<Rightarrow> nat list" where
  "tx_ticks_from k [] = []"
| "tx_ticks_from k (evs # tr) =
     (if sent_packets evs = [] then [] else [k]) @ tx_ticks_from (Suc k) tr"

definition run_tx_ticks :: "(16 word \<times> int) list \<Rightarrow> node \<Rightarrow> nat list option" where
  "run_tx_ticks ins s = map_option (tx_ticks_from 1 \<circ> fst) (run_ticks ins s)"

text \<open>The sequence id a packet carries: the byte after the hop count.\<close>

definition packet_seqid :: "byte list \<Rightarrow> byte option" where
  "packet_seqid pkt = (case drop (length HOPS) pkt of [] \<Rightarrow> None | c # _ \<Rightarrow> Some c)"

definition run_seqids :: "(16 word \<times> int) list \<Rightarrow> node \<Rightarrow> byte option list option" where
  "run_seqids ins s =
     map_option (\<lambda>r. map packet_seqid (concat (map sent_packets (fst r)))) (run_ticks ins s)"

text \<open>The sequence id of the \<open>k\<close>-th packet after power-on, counted from 0, in closed form.\<close>

definition nth_seqid :: "nat \<Rightarrow> byte" where
  "nth_seqid k = (if k = 0 then of_char CHR ''a'' else of_char CHR ''b'' + of_nat ((k - 1) mod 25))"

text \<open>
  The wake counter alone decides on which ticks a packet goes out: the schedule of \<open>n\<close>
  ticks numbered from \<open>k\<close>, the counter being \<open>w\<close> before the first of them.
\<close>

fun tx_schedule :: "nat \<Rightarrow> nat \<Rightarrow> byte \<Rightarrow> nat list" where
  "tx_schedule k 0 w = []"
| "tx_schedule k (Suc n) w =
     (if unat w = WAKE_FREQ then k # tx_schedule (Suc k) n 1 else tx_schedule (Suc k) n (w + 1))"

subsection \<open>The composed packet\<close>

text \<open>The bytes of a packet, field by field.\<close>

definition packet_bytes :: "byte \<Rightarrow> 16 word \<Rightarrow> int \<Rightarrow> power_mode_t \<Rightarrow> byte list" where
  "packet_bytes c mv t m =
     ascii HOPS @ [c] @ ascii ''V'' @ utoa_digits (unat mv) @ ascii ''T'' @ dtostrf_digits t
     @ ascii ''X'' @ utoa_digits WAKE_FREQ @ ascii '','' @ utoa_digits TX_POWER_DBM @ ascii '',''
     @ utoa_digits (power_mode_val m) @ ascii ''['' @ ascii NODE_ID @ ascii '']''"

text \<open>
  The temperatures whose rendering, with every other field at its longest, still leaves
  room for the terminating zero: up to 39 digits before the decimal point.
\<close>

definition temp_in_range :: "int \<Rightarrow> bool" where
  "temp_in_range t \<longleftrightarrow> \<bar>t\<bar> < 10 ^ 40"

text \<open>
  \<open>built s0 str s\<close>: in \<open>s\<close> the buffer holds \<open>str\<close> up to the packet pointer, and the
  sequence id, wake counter and power mode are those of \<open>s0\<close>.
\<close>

definition built :: "node \<Rightarrow> byte list \<Rightarrow> node \<Rightarrow> bool" where
  "built s0 str s \<longleftrightarrow>
     p s = length str \<and> map (packetbuf s) [0..<length str] = str
     \<and> seqid s = seqid s0 \<and> wakes s = wakes s0 \<and> power_mode s = power_mode s0"

text \<open>
  The packet a tick sends from state \<open>s\<close>: \<^verbatim>\<open>strlen\<close> stops at the first zero byte,
  which only a zero sequence id could put inside the composed bytes.
\<close>

definition tick_packet :: "16 word \<Rightarrow> int \<Rightarrow> node \<Rightarrow> byte list" where
  "tick_packet adc t s =
     takeWhile (\<lambda>b. b \<noteq> 0) (packet_bytes (seqid s) (get_batt_voltage adc) t (power_mode s))"

section \<open>Battery voltage conversion\<close>

lemma get_batt_voltage_unat:
  "unat (get_batt_voltage adc) = (unat adc * 3300 div 1024) mod 65536"
proof -
  have lt: "unat adc < 65536"
    using unsigned_less [of adc, where 'a=nat] by simp
  have w: "unat (ucast adc :: 32 word) = unat adc"
    using lt by (simp add: unsigned_ucast_eq take_bit_nat_eq_self)
  have m: "unat ((ucast adc :: 32 word) * 3300) = unat adc * 3300"
    using lt by (simp add: unat_word_ariths w)
  have d: "unat (((ucast adc :: 32 word) * 3300) div 1024) = unat adc * 3300 div 1024"
    by (simp add: unat_div m)
  show ?thesis
    by (simp add: get_batt_voltage_def Let_def unsigned_ucast_eq d take_bit_eq_mod)
qed

section \<open>Digits\<close>

lemma digit_byte_nonzero: "d < 10 \<Longrightarrow> digit_byte d \<noteq> 0"
proof -
  assume d: "d < 10"
  have "unat (digit_byte d) = 48 + d"
    using d by (simp add: digit_byte_def unat_word_ariths unat_of_nat)
  then show ?thesis by (metis add_is_0 unat_0 zero_neq_numeral)
qed

lemma utoa_digits_nonzero: "0 \<notin> set (utoa_digits n)"
proof (induction n rule: utoa_digits.induct)
  case (1 n)
  show ?case
  proof (cases "n < 10")
    case True
    then show ?thesis
      using digit_byte_nonzero [of n] by (simp add: utoa_digits.simps [of n])
  next
    case False
    have "n mod 10 < 10" by simp
    then have "digit_byte (n mod 10) \<noteq> 0" by (rule digit_byte_nonzero)
    with False "1.IH" show ?thesis
      by (auto simp add: utoa_digits.simps [of n])
  qed
qed

lemma utoa_digits_length: "n < 10 ^ k \<Longrightarrow> 0 < k \<Longrightarrow> length (utoa_digits n) \<le> k"
proof (induction k arbitrary: n)
  case 0
  then show ?case by simp
next
  case (Suc k)
  show ?case
  proof (cases "n < 10")
    case True
    then show ?thesis by (simp add: utoa_digits.simps [of n])
  next
    case False
    then have k: "0 < k" using Suc.prems(1) by (cases k) auto
    have "n div 10 < 10 ^ k"
      using Suc.prems(1) by (simp add: less_mult_imp_div_less mult.commute)
    then have "length (utoa_digits (n div 10)) \<le> k"
      using k by (rule Suc.IH)
    with False show ?thesis by (simp add: utoa_digits.simps [of n])
  qed
qed

lemma poke_below: "j < i \<Longrightarrow> poke x i m j = m j"
  by (induction x arbitrary: i m) auto

lemma poke_at: "j < length x \<Longrightarrow> poke x i m (i + j) = x ! j"
proof (induction x arbitrary: i m j)
  case Nil
  then show ?case by simp
next
  case (Cons c cs)
  show ?case
  proof (cases j)
    case 0
    then show ?thesis by (simp add: poke_below)
  next
    case (Suc j')
    with Cons.prems have "j' < length cs" by simp
    then have "poke cs (Suc i) (m(i := c)) (Suc i + j') = cs ! j'" by (rule Cons.IH)
    with Suc show ?thesis by simp
  qed
qed

lemma poke_end: "poke x i m (i + length x) = 0"
proof (induction x arbitrary: i m)
  case Nil
  then show ?case by simp
next
  case (Cons c cs)
  have "poke cs (Suc i) (m(i := c)) (Suc i + length cs) = 0" by (rule Cons.IH)
  then show ?case by simp
qed

lemma find_nul_first:
  "e < PACKETBUF_SIZE \<Longrightarrow> m e = 0 \<Longrightarrow> i \<le> e \<Longrightarrow> (\<And>j. i \<le> j \<Longrightarrow> j < e \<Longrightarrow> m j \<noteq> 0)
   \<Longrightarrow> find_nul m i = Some e"
proof (induction "e - i" arbitrary: i)
  case 0
  then have "i = e" by simp
  with 0 show ?case by (simp add: find_nul.simps [of m e])
next
  case (Suc d)
  then have lt: "i < e" by simp
  then have nz: "m i \<noteq> 0" using Suc.prems(4) by simp
  have "find_nul m (Suc i) = Some e"
  proof (rule Suc.hyps(1))
    show "d = e - Suc i" using Suc.hyps(2) by simp
    show "e < PACKETBUF_SIZE" by (rule Suc.prems(1))
    show "m e = 0" by (rule Suc.prems(2))
    show "Suc i \<le> e" using lt by simp
    show "\<And>j. Suc i \<le> j \<Longrightarrow> j < e \<Longrightarrow> m j \<noteq> 0" using Suc.prems(4) by simp
  qed
  with lt nz Suc.prems(1) show ?case by (simp add: find_nul.simps [of m i])
qed

section \<open>Composing the packet\<close>

lemma map_poke:
  "map (poke x i m) [0..<i + length x] = map m [0..<i] @ x"
proof (rule nth_equalityI)
  show "length (map (poke x i m) [0..<i + length x]) = length (map m [0..<i] @ x)" by simp
next
  fix j
  assume "j < length (map (poke x i m) [0..<i + length x])"
  then have j: "j < i + length x" by simp
  show "map (poke x i m) [0..<i + length x] ! j = (map m [0..<i] @ x) ! j"
  proof (cases "j < i")
    case True
    then show ?thesis using j by (simp add: poke_below nth_append)
  next
    case False
    then obtain d where d: "j = i + d" "d < length x"
      using j by (metis add_diff_inverse_nat nat_add_left_cancel_less)
    then show ?thesis using j by (simp add: poke_at nth_append)
  qed
qed

lemma built_store:
  assumes "built s0 str s" and "length str < PACKETBUF_SIZE"
  shows "\<exists>s'. store_byte c s = Some s' \<and> built s0 (str @ [c]) s' \<and> batt_mv s' = batt_mv s"
  using assms by (simp add: built_def store_byte_def)

lemma built_write:
  assumes "built s0 str s" and "length str + length x < PACKETBUF_SIZE" and "0 \<notin> set x"
  shows "\<exists>s1 s2. write_str x s = Some s1 \<and> advance s1 = Some s2
           \<and> built s0 (str @ x) s2 \<and> batt_mv s2 = batt_mv s"
proof -
  let ?i = "length str"
  let ?m = "poke x ?i (packetbuf s)"
  let ?s1 = "s\<lparr>packetbuf := ?m\<rparr>"
  from assms(1) have ps: "p s = ?i" by (simp add: built_def)
  have w: "write_str x s = Some ?s1"
    using assms(2) ps by (simp add: write_str_def)
  have nz: "\<And>j. ?i \<le> j \<Longrightarrow> j < ?i + length x \<Longrightarrow> ?m j \<noteq> 0"
  proof -
    fix j assume "?i \<le> j" "j < ?i + length x"
    then obtain d where d: "j = ?i + d" "d < length x"
      by (metis add_diff_inverse_nat nat_add_left_cancel_less not_less)
    then have "?m j = x ! d" by (simp add: poke_at)
    moreover have "x ! d \<in> set x" using d by simp
    ultimately show "?m j \<noteq> 0" using assms(3) by metis
  qed
  have f: "find_nul ?m ?i = Some (?i + length x)"
    by (rule find_nul_first) (use assms(2) nz in \<open>simp_all add: poke_end\<close>)
  have a: "advance ?s1 = Some (?s1\<lparr>p := ?i + length x\<rparr>)"
    using f ps by (simp add: advance_def strlen_def)
  have "map ?m [0..<?i + length x] = map (packetbuf s) [0..<?i] @ x"
    by (rule map_poke)
  then have b: "built s0 (str @ x) (?s1\<lparr>p := ?i + length x\<rparr>)"
    using assms(1) by (simp add: built_def)
  show ?thesis using w a b by simp
qed

lemma built_nul:
  assumes "built s0 str s" and "length str < PACKETBUF_SIZE"
  shows "\<exists>s'. store_nul s = Some s' \<and> built s0 str s' \<and> batt_mv s' = batt_mv s
           \<and> packetbuf s' (length str) = 0"
  using assms by (simp add: built_def store_nul_def)

lemma utoa_digits_small: "n < 10 \<Longrightarrow> utoa_digits n = [digit_byte n]"
  by (simp add: utoa_digits.simps [of n])

lemma utoa_digits_u16_length: "length (utoa_digits (unat (mv :: 16 word))) \<le> 5"
proof -
  have "unat mv < 65536" using unsigned_less [of mv, where 'a=nat] by simp
  then have "unat mv < 10 ^ 5" by simp
  then show ?thesis by (rule utoa_digits_length) simp
qed

lemma dtostrf_digits_length:
  assumes "temp_in_range t"
  shows "length (dtostrf_digits t) \<le> 42"
proof -
  define n where "n = nat \<bar>t\<bar>"
  have "n < 10 ^ 40"
    using assms by (simp add: n_def temp_in_range_def nat_less_iff)
  then have "n div 10 < 10 ^ 39"
    by (simp add: less_mult_imp_div_less)
  then have "length (utoa_digits (n div 10)) \<le> 39"
    by (rule utoa_digits_length) simp
  then show ?thesis
    unfolding dtostrf_digits_def n_def [symmetric] by simp
qed

lemma dtostrf_digits_nonzero: "0 \<notin> set (dtostrf_digits t)"
proof -
  have "nat \<bar>t\<bar> mod 10 < 10" by simp
  then have "digit_byte (nat \<bar>t\<bar> mod 10) \<noteq> 0" by (rule digit_byte_nonzero)
  then show ?thesis
    using utoa_digits_nonzero [of "nat \<bar>t\<bar> div 10"] by (auto simp add: dtostrf_digits_def)
qed

lemma utoa_digits_WAKE_FREQ: "utoa_digits WAKE_FREQ = ascii ''5''"
  by (simp add: WAKE_FREQ_def utoa_digits_small digit_byte_def)

lemma utoa_digits_TX_POWER_DBM: "utoa_digits TX_POWER_DBM = ascii ''10''"
  by (simp add: TX_POWER_DBM_def utoa_digits.simps [of 10] utoa_digits_small digit_byte_def)

lemma utoa_digits_power_mode:
  "utoa_digits (power_mode_val m) = [digit_byte (power_mode_val m)]"
  by (cases m) (simp_all add: utoa_digits_small)

lemma length_packet_bytes:
  "length (packet_bytes c mv t m) =
     16 + length (utoa_digits (unat mv)) + length (dtostrf_digits t)"
  by (simp add: packet_bytes_def HOPS_def NODE_ID_def utoa_digits_WAKE_FREQ
      utoa_digits_TX_POWER_DBM utoa_digits_power_mode)

lemma built_batt_mv: "built s0 str s \<Longrightarrow> built s0 str (s\<lparr>batt_mv := v\<rparr>)"
  by (simp add: built_def)

lemma encode_packet_built:
  assumes t: "temp_in_range t"
  shows "\<exists>s'. encode_packet adc t s = Some s'
           \<and> built s (packet_bytes (seqid s) (get_batt_voltage adc) t (power_mode s)) s'
           \<and> batt_mv s' = get_batt_voltage adc
           \<and> packetbuf s' (length (packet_bytes (seqid s) (get_batt_voltage adc) t (power_mode s))) = 0
           \<and> length (packet_bytes (seqid s) (get_batt_voltage adc) t (power_mode s)) < PACKETBUF_SIZE"
proof -
  let ?mv = "get_batt_voltage adc"
  let ?V = "utoa_digits (unat ?mv)"
  let ?T = "dtostrf_digits t"
  let ?M = "utoa_digits (power_mode_val (power_mode s))"
  have lv: "length ?V \<le> 5" by (rule utoa_digits_u16_length)
  have lt: "length ?T \<le> 42" using t by (rule dtostrf_digits_length)
  have lm: "length ?M = 1" by (simp add: utoa_digits_power_mode)
  note nz = utoa_digits_nonzero dtostrf_digits_nonzero
  note sz = PACKETBUF_SIZE_def HOPS_def NODE_ID_def utoa_digits_WAKE_FREQ utoa_digits_TX_POWER_DBM
  have b0: "built s [] (s\<lparr>p := 0\<rparr>)" by (simp add: built_def)
  obtain a1 s1 where e1: "strcpy HOPS (s\<lparr>p := 0\<rparr>) = Some a1" "advance a1 = Some s1"
    and b1: "built s (ascii HOPS) s1"
    using built_write [OF b0, of "ascii HOPS"] by (auto simp add: sz strcpy_def)
  obtain s2 where e2: "store_byte (seqid s) s1 = Some s2"
    and b2: "built s (ascii HOPS @ [seqid s]) s2"
    using built_store [OF b1, of "seqid s"] by (auto simp add: sz)
  obtain s3 where e3: "store_byte (of_char CHR ''V'') s2 = Some s3"
    and b3: "built s (ascii HOPS @ [seqid s] @ ascii ''V'') s3"
    using built_store [OF b2, of "of_char CHR ''V''"] by (auto simp add: sz)
  have b3': "built s (ascii HOPS @ [seqid s] @ ascii ''V'') (s3\<lparr>batt_mv := ?mv\<rparr>)"
    using b3 by (rule built_batt_mv)
  obtain a4 s4 where e4: "utoa (unat ?mv) (s3\<lparr>batt_mv := ?mv\<rparr>) = Some a4" "advance a4 = Some s4"
    and b4: "built s (ascii HOPS @ [seqid s] @ ascii ''V'' @ ?V) s4"
    and v4: "batt_mv s4 = ?mv"
    using built_write [OF b3', of ?V] lv nz by (auto simp add: sz utoa_def)
  obtain s5 where e5: "store_byte (of_char CHR ''T'') s4 = Some s5"
    and b5: "built s (ascii HOPS @ [seqid s] @ ascii ''V'' @ ?V @ ascii ''T'') s5"
    and v5: "batt_mv s5 = ?mv"
    using built_store [OF b4, of "of_char CHR ''T''"] lv v4 by (auto simp add: sz)
  obtain a6 s6 where e6: "dtostrf t s5 = Some a6" "advance a6 = Some s6"
    and b6: "built s (ascii HOPS @ [seqid s] @ ascii ''V'' @ ?V @ ascii ''T'' @ ?T) s6"
    and v6: "batt_mv s6 = ?mv"
    using built_write [OF b5, of ?T] lv lt nz v5 by (auto simp add: sz dtostrf_def)
  obtain s7 where e7: "store_byte (of_char CHR ''X'') s6 = Some s7"
    and b7: "built s (ascii HOPS @ [seqid s] @ ascii ''V'' @ ?V @ ascii ''T'' @ ?T @ ascii ''X'') s7"
    and v7: "batt_mv s7 = ?mv"
    using built_store [OF b6, of "of_char CHR ''X''"] lv lt v6 by (auto simp add: sz)
  obtain a8 s8 where e8: "utoa WAKE_FREQ s7 = Some a8" "advance a8 = Some s8"
    and b8: "built s (ascii HOPS @ [seqid s] @ ascii ''V'' @ ?V @ ascii ''T'' @ ?T @ ascii ''X''
               @ utoa_digits WAKE_FREQ) s8"
    and v8: "batt_mv s8 = ?mv"
    using built_write [OF b7, of "utoa_digits WAKE_FREQ"] lv lt v7
    by (auto simp add: sz utoa_def)
  obtain s9 where e9: "store_byte (of_char CHR '','') s8 = Some s9"
    and b9: "built s (ascii HOPS @ [seqid s] @ ascii ''V'' @ ?V @ ascii ''T'' @ ?T @ ascii ''X''
               @ utoa_digits WAKE_FREQ @ ascii '','') s9"
    and v9: "batt_mv s9 = ?mv"
    using built_store [OF b8, of "of_char CHR '',''"] lv lt v8 by (auto simp add: sz)
  obtain a10 s10 where e10: "utoa TX_POWER_DBM s9 = Some a10" "advance a10 = Some s10"
    and b10: "built s (ascii HOPS @ [seqid s] @ ascii ''V'' @ ?V @ ascii ''T'' @ ?T @ ascii ''X''
               @ utoa_digits WAKE_FREQ @ ascii '','' @ utoa_digits TX_POWER_DBM) s10"
    and v10: "batt_mv s10 = ?mv"
    using built_write [OF b9, of "utoa_digits TX_POWER_DBM"] lv lt v9
    by (auto simp add: sz utoa_def)
  obtain s11 where e11: "store_byte (of_char CHR '','') s10 = Some s11"
    and b11: "built s (ascii HOPS @ [seqid s] @ ascii ''V'' @ ?V @ ascii ''T'' @ ?T @ ascii ''X''
               @ utoa_digits WAKE_FREQ @ ascii '','' @ utoa_digits TX_POWER_DBM @ ascii '','') s11"
    and v11: "batt_mv s11 = ?mv"
    using built_store [OF b10, of "of_char CHR '',''"] lv lt v10 by (auto simp add: sz)
  have pm11: "power_mode s11 = power_mode s" using b11 by (simp add: built_def)
  obtain a12 s12 where e12: "utoa (power_mode_val (power_mode s)) s11 = Some a12"
      "advance a12 = Some s12"
    and b12: "built s (ascii HOPS @ [seqid s] @ ascii ''V'' @ ?V @ ascii ''T'' @ ?T @ ascii ''X''
               @ utoa_digits WAKE_FREQ @ ascii '','' @ utoa_digits TX_POWER_DBM @ ascii '',''
               @ ?M) s12"
    and v12: "batt_mv s12 = ?mv"
    using built_write [OF b11, of ?M] lv lt lm nz v11 by (auto simp add: sz utoa_def)
  obtain s13 where e13: "store_byte (of_char CHR ''['') s12 = Some s13"
    and b13: "built s (ascii HOPS @ [seqid s] @ ascii ''V'' @ ?V @ ascii ''T'' @ ?T @ ascii ''X''
               @ utoa_digits WAKE_FREQ @ ascii '','' @ utoa_digits TX_POWER_DBM @ ascii '',''
               @ ?M @ ascii ''['') s13"
    and v13: "batt_mv s13 = ?mv"
    using built_store [OF b12, of "of_char CHR ''[''"] lv lt lm v12 by (auto simp add: sz)
  obtain a14 s14 where e14: "strcpy NODE_ID s13 = Some a14" "advance a14 = Some s14"
    and b14: "built s (ascii HOPS @ [seqid s] @ ascii ''V'' @ ?V @ ascii ''T'' @ ?T @ ascii ''X''
               @ utoa_digits WAKE_FREQ @ ascii '','' @ utoa_digits TX_POWER_DBM @ ascii '',''
               @ ?M @ ascii ''['' @ ascii NODE_ID) s14"
    and v14: "batt_mv s14 = ?mv"
    using built_write [OF b13, of "ascii NODE_ID"] lv lt lm v13
    by (auto simp add: sz strcpy_def)
  obtain s15 where e15: "store_byte (of_char CHR '']'') s14 = Some s15"
    and b15: "built s (packet_bytes (seqid s) ?mv t (power_mode s)) s15"
    and v15: "batt_mv s15 = ?mv"
    using built_store [OF b14, of "of_char CHR '']''"] lv lt lm v14
    by (auto simp add: sz packet_bytes_def)
  have len: "length (packet_bytes (seqid s) ?mv t (power_mode s)) < PACKETBUF_SIZE"
    using lv lt by (simp add: length_packet_bytes PACKETBUF_SIZE_def)
  obtain s16 where e16: "store_nul s15 = Some s16"
    and b16: "built s (packet_bytes (seqid s) ?mv t (power_mode s)) s16"
    and v16: "batt_mv s16 = ?mv"
    and z16: "packetbuf s16 (length (packet_bytes (seqid s) ?mv t (power_mode s))) = 0"
    using built_nul [OF b15 len] v15 by auto
  have q: "seqid s1 = seqid s" "batt_mv (s3\<lparr>batt_mv := ?mv\<rparr>) = ?mv"
    using b1 by (simp_all add: built_def)
  have "encode_packet adc t s = Some s16"
    unfolding encode_packet_def Let_def
    using e1 e2 e3 e4 e5 e6 e7 e8 e9 e10 e11 e12 e13 e14 e15 e16 q pm11 by simp
  then show ?thesis using b16 v16 z16 len by simp
qed

section \<open>One tick\<close>

lemma buffer_string_built:
  assumes mp: "map m [0..<length str] = str" and z: "m (length str) = 0"
    and len: "length str < PACKETBUF_SIZE" and m: "packetbuf s = m"
  shows "buffer_string s = Some (takeWhile (\<lambda>b. b \<noteq> 0) str)"
proof -
  let ?P = "\<lambda>b::byte. b \<noteq> 0"
  let ?k = "length (takeWhile ?P str)"
  have kle: "?k \<le> length str" by (rule length_takeWhile_le)
  have nth: "\<And>j. j < length str \<Longrightarrow> m j = str ! j"
  proof -
    fix j assume j: "j < length str"
    then have "map m [0..<length str] ! j = m j" by simp
    then show "m j = str ! j" using mp by simp
  qed
  have zk: "m ?k = 0"
  proof (cases "?k < length str")
    case True
    then have "\<not> ?P (str ! ?k)" by (rule nth_length_takeWhile)
    then show ?thesis using nth [OF True] by simp
  next
    case False
    then have "?k = length str" using kle by simp
    then show ?thesis using z by simp
  qed
  have nzk: "\<And>j. 0 \<le> j \<Longrightarrow> j < ?k \<Longrightarrow> m j \<noteq> 0"
  proof -
    fix j assume j: "j < ?k"
    then have "takeWhile ?P str ! j \<in> set (takeWhile ?P str)" by simp
    then have "?P (takeWhile ?P str ! j)" by (rule set_takeWhileD [THEN conjunct2])
    moreover have "takeWhile ?P str ! j = str ! j" using j by (rule takeWhile_nth)
    moreover have "m j = str ! j" using j kle by (simp add: nth)
    ultimately show "m j \<noteq> 0" by simp
  qed
  have f: "find_nul m 0 = Some ?k"
    by (rule find_nul_first) (use kle len zk nzk in simp_all)
  have "map m [0..<?k] = takeWhile ?P str"
  proof (rule nth_equalityI)
    show "length (map m [0..<?k]) = length (takeWhile ?P str)" by simp
  next
    fix j assume "j < length (map m [0..<?k])"
    then have j: "j < ?k" by simp
    then have "m j = str ! j" using kle by (simp add: nth)
    then show "map m [0..<?k] ! j = takeWhile ?P str ! j"
      using j by (simp add: takeWhile_nth)
  qed
  then show ?thesis using f m by (simp add: buffer_string_def strlen_def)
qed

lemma encode_packet_buffer_string:
  assumes "temp_in_range t"
  shows "\<exists>s'. encode_packet adc t s = Some s' \<and> buffer_string s' = Some (tick_packet adc t s)
           \<and> seqid s' = seqid s \<and> wakes s' = wakes s \<and> power_mode s' = power_mode s
           \<and> batt_mv s' = get_batt_voltage adc
           \<and> p s' = length (packet_bytes (seqid s) (get_batt_voltage adc) t (power_mode s))
           \<and> p s' < PACKETBUF_SIZE"
proof -
  let ?pk = "packet_bytes (seqid s) (get_batt_voltage adc) t (power_mode s)"
  obtain s' where e: "encode_packet adc t s = Some s'" and b: "built s ?pk s'"
    and v: "batt_mv s' = get_batt_voltage adc" and z: "packetbuf s' (length ?pk) = 0"
    and len: "length ?pk < PACKETBUF_SIZE"
    using encode_packet_built [OF assms, of adc s] by blast
  from b have mp: "map (packetbuf s') [0..<length ?pk] = ?pk" by (simp add: built_def)
  have "buffer_string s' = Some (takeWhile (\<lambda>b. b \<noteq> 0) ?pk)"
    using mp z len by (rule buffer_string_built) simp
  then show ?thesis using e b v len by (simp add: built_def tick_packet_def)
qed

lemma cycle_tick_transmit:
  assumes w: "unat (wakes s) = WAKE_FREQ" and t: "temp_in_range t"
  shows "\<exists>s'. cycle_tick adc t s =
           Some ([Sample_Voltage adc, Sample_Temperature t, Encode_Packet (tick_packet adc t s),
                  Radio_Send (tick_packet adc t s) TX_POWER_DBM], s')
           \<and> wakes s' = 1 \<and> seqid s' = next_seqid (seqid s)
           \<and> batt_mv s' = get_batt_voltage adc
           \<and> power_mode s' = update_power_mode (get_batt_voltage adc) (power_mode s)"
proof -
  obtain s1 where e: "encode_packet adc t s = Some s1"
    and b: "buffer_string s1 = Some (tick_packet adc t s)"
    and f: "seqid s1 = seqid s" "power_mode s1 = power_mode s" "batt_mv s1 = get_batt_voltage adc"
    using encode_packet_buffer_string [OF t, of adc s] by blast
  show ?thesis using w e b f by (simp add: cycle_tick_def)
qed

lemma cycle_tick_idle:
  assumes "unat (wakes s) \<noteq> WAKE_FREQ"
  shows "cycle_tick adc t s = Some ([], s\<lparr>wakes := wakes s + 1\<rparr>)"
  using assms by (simp add: cycle_tick_def)

lemma packet_bytes_nonzero:
  assumes "c \<noteq> 0"
  shows "0 \<notin> set (packet_bytes c mv t m)"
  using assms utoa_digits_nonzero [of "unat mv"] dtostrf_digits_nonzero [of t]
    utoa_digits_nonzero [of "power_mode_val m"]
  by (auto simp add: packet_bytes_def HOPS_def NODE_ID_def utoa_digits_WAKE_FREQ
      utoa_digits_TX_POWER_DBM)

lemma tick_packet_nonzero:
  assumes "seqid s \<noteq> 0"
  shows "tick_packet adc t s = packet_bytes (seqid s) (get_batt_voltage adc) t (power_mode s)"
  unfolding tick_packet_def
  by (rule takeWhile_eq_all_conv [THEN iffD2]) (use packet_bytes_nonzero [OF assms] in metis)

section \<open>Ticks and runs\<close>

lemma cycle_tick_cases:
  assumes t: "temp_in_range t"
  obtains (transmit) s' where "unat (wakes s) = WAKE_FREQ"
      and "cycle_tick adc t s =
        Some ([Sample_Voltage adc, Sample_Temperature t, Encode_Packet (tick_packet adc t s),
               Radio_Send (tick_packet adc t s) TX_POWER_DBM], s')"
      and "wakes s' = 1" and "seqid s' = next_seqid (seqid s)"
    | (idle) "unat (wakes s) \<noteq> WAKE_FREQ"
      and "cycle_tick adc t s = Some ([], s\<lparr>wakes := wakes s + 1\<rparr>)"
proof (cases "unat (wakes s) = WAKE_FREQ")
  case True
  then show ?thesis
    using cycle_tick_transmit [OF True t, of adc] transmit by blast
next
  case False
  then show ?thesis using cycle_tick_idle [OF False, of adc t] idle by blast
qed

lemma cycle_tick_Some_wakes:
  assumes "cycle_tick adc t s = Some (evs, s')"
  shows "if unat (wakes s) = WAKE_FREQ
         then wakes s' = 1 \<and> sent_packets evs \<noteq> []
         else wakes s' = wakes s + 1 \<and> evs = []"
  using assms by (auto simp add: cycle_tick_def Let_def split: if_splits bind_splits)

lemma packet_seqid_tick_packet:
  assumes "seqid s \<noteq> 0"
  shows "packet_seqid (tick_packet adc t s) = Some (seqid s)"
  by (simp add: tick_packet_nonzero [OF assms] packet_seqid_def packet_bytes_def)

subsection \<open>The sequence ids in closed form\<close>

lemma nth_seqid_unat: "unat (nth_seqid k) = (if k = 0 then 97 else 98 + (k - 1) mod 25)"
proof (cases "k = 0")
  case True
  then show ?thesis by (simp add: nth_seqid_def)
next
  case False
  have "(k - 1) mod 25 < 25" by simp
  then have "98 + (k - 1) mod 25 < 256" by simp
  then have "unat (98 + of_nat ((k - 1) mod 25) :: byte) = 98 + (k - 1) mod 25"
    by (simp add: unat_word_ariths unat_of_nat)
  with False show ?thesis by (simp add: nth_seqid_def)
qed

lemma nth_seqid_nonzero: "nth_seqid k \<noteq> 0"
proof
  assume "nth_seqid k = 0"
  then have "unat (nth_seqid k) = 0" by simp
  then show False by (simp add: nth_seqid_unat split: if_splits)
qed

lemma next_seqid_nth: "next_seqid (nth_seqid k) = nth_seqid (Suc k)"
proof (rule word_unat_eq_iff [THEN iffD2])
  have z: "nth_seqid k = of_char CHR ''z'' \<longleftrightarrow> unat (nth_seqid k) = 122"
    by (simp add: word_unat_eq_iff)
  show "unat (next_seqid (nth_seqid k)) = unat (nth_seqid (Suc k))"
  proof (cases "k = 0")
    case True
    then show ?thesis by (simp add: next_seqid_def nth_seqid_def)
  next
    case k: False
    define r where "r = (k - 1) mod 25"
    have r: "r < 25" by (simp add: r_def)
    have u: "unat (nth_seqid k) = 98 + r"
      using k by (simp add: nth_seqid_unat r_def)
    obtain j where j: "k = Suc j" using k by (cases k) auto
    have km: "k mod 25 = (if Suc r = 25 then 0 else Suc r)"
      unfolding j r_def by (simp add: mod_Suc)
    show ?thesis
    proof (cases "r = 24")
      case True
      then have "k mod 25 = 0" using km by simp
      then have "unat (nth_seqid (Suc k)) = 98" by (simp add: nth_seqid_unat)
      moreover have "nth_seqid k = of_char CHR ''z''" using z u True by simp
      ultimately show ?thesis by (simp add: next_seqid_def)
    next
      case False
      then have "k mod 25 = r + 1" using km by simp
      then have "unat (nth_seqid (Suc k)) = 99 + r" by (simp add: nth_seqid_unat)
      moreover have "nth_seqid k \<noteq> of_char CHR ''z''" using z u False by simp
      moreover have "unat (nth_seqid k + 1) = 99 + r"
        using u r by (simp add: unat_word_ariths)
      ultimately show ?thesis by (simp add: next_seqid_def)
    qed
  qed
qed

lemma nth_seqid_range: "of_char CHR ''a'' \<le> nth_seqid j \<and> nth_seqid j \<le> of_char CHR ''z''"
proof -
  have "(j - Suc 0) mod 25 < 25" by simp
  then have "97 \<le> unat (nth_seqid j) \<and> unat (nth_seqid j) \<le> 122"
    by (auto simp add: nth_seqid_unat)
  then show ?thesis by (simp add: word_le_nat_alt)
qed

lemma nth_seqid_not_a: "0 < j \<Longrightarrow> nth_seqid j \<noteq> of_char CHR ''a''"
proof
  assume j: "0 < j" and "nth_seqid j = of_char CHR ''a''"
  then have "unat (nth_seqid j) = 97" by simp
  with j show False by (simp add: nth_seqid_unat)
qed

lemma nth_seqid_Suc_neq: "nth_seqid (Suc j) \<noteq> nth_seqid j"
proof
  assume "nth_seqid (Suc j) = nth_seqid j"
  then have e: "unat (nth_seqid (Suc j)) = unat (nth_seqid j)" by simp
  show False
  proof (cases j)
    case 0
    with e show False by (simp add: nth_seqid_unat)
  next
    case (Suc i)
    with e have "Suc i mod 25 = i mod 25" by (simp add: nth_seqid_unat)
    then show False by (simp add: mod_Suc split: if_splits)
  qed
qed

subsection \<open>Runs\<close>

lemma run_ticks_props:
  assumes "list_all (\<lambda>i. temp_in_range (snd i)) ins"
    and "1 \<le> unat (wakes s)" and "unat (wakes s) \<le> WAKE_FREQ"
    and "seqid s = nth_seqid n"
  shows "\<exists>tr s'. run_ticks ins s = Some (tr, s')
    \<and> tx_ticks_from k tr = tx_schedule k (length ins) (wakes s)
    \<and> map packet_seqid (concat (map sent_packets tr)) =
        map (\<lambda>j. Some (nth_seqid j)) [n..<n + (length ins + unat (wakes s) - 1) div 5]"
  using assms
proof (induction ins arbitrary: s n k)
  case Nil
  have "(unat (wakes s) - 1) div 5 = 0"
    using Nil.prems(3) by (simp add: WAKE_FREQ_def)
  then show ?case by simp
next
  case (Cons i ins)
  have ti: "temp_in_range (snd i)" and tins: "list_all (\<lambda>i. temp_in_range (snd i)) ins"
    using Cons.prems(1) by simp_all
  show ?case
  proof (rule cycle_tick_cases [OF ti, of s "fst i"], goal_cases transmit idle)
    case (transmit s1)
    let ?evs = "[Sample_Voltage (fst i), Sample_Temperature (snd i),
      Encode_Packet (tick_packet (fst i) (snd i) s),
      Radio_Send (tick_packet (fst i) (snd i) s) TX_POWER_DBM]"
    have w1: "1 \<le> unat (wakes s1)" "unat (wakes s1) \<le> WAKE_FREQ"
      using transmit(3) by (simp_all add: WAKE_FREQ_def)
    have q1: "seqid s1 = nth_seqid (Suc n)"
      using transmit(4) Cons.prems(4) by (simp add: next_seqid_nth)
    obtain tr s' where r: "run_ticks ins s1 = Some (tr, s')"
      and tx: "tx_ticks_from (Suc k) tr = tx_schedule (Suc k) (length ins) (wakes s1)"
      and ids: "map packet_seqid (concat (map sent_packets tr)) =
        map (\<lambda>j. Some (nth_seqid j))
          [Suc n..<Suc n + (length ins + unat (wakes s1) - 1) div 5]"
      using Cons.IH [OF tins w1 q1, of "Suc k"] by blast
    have run: "run_ticks (i # ins) s = Some (?evs # tr, s')"
      using transmit(2) r by simp
    have a: "tx_ticks_from k (?evs # tr) = tx_schedule k (length (i # ins)) (wakes s)"
      using tx transmit(1,3) by simp
    have nz: "seqid s \<noteq> 0"
      using Cons.prems(4) by (simp add: nth_seqid_nonzero)
    have cnt: "(length (i # ins) + unat (wakes s) - 1) div 5 = Suc (length ins div 5)"
      using transmit(1) by (simp add: WAKE_FREQ_def)
    have "map packet_seqid (concat (map sent_packets (?evs # tr))) =
        Some (nth_seqid n) # map (\<lambda>j. Some (nth_seqid j)) [Suc n..<Suc n + length ins div 5]"
      using ids transmit(3) Cons.prems(4) by (simp add: packet_seqid_tick_packet [OF nz])
    also have "\<dots> = map (\<lambda>j. Some (nth_seqid j))
        [n..<n + (length (i # ins) + unat (wakes s) - 1) div 5]"
      unfolding cnt by (simp add: upt_rec [of n])
    finally show ?thesis using run a by blast
  next
    case idle
    let ?s1 = "s\<lparr>wakes := wakes s + 1\<rparr>"
    have lt: "unat (wakes s) < 5"
      using idle(1) Cons.prems(3) by (simp add: WAKE_FREQ_def)
    then have u: "unat (wakes s + 1) = unat (wakes s) + 1"
      by (simp add: unat_word_ariths)
    have w1: "1 \<le> unat (wakes ?s1)" "unat (wakes ?s1) \<le> WAKE_FREQ"
      using u lt by (simp_all add: WAKE_FREQ_def)
    have q1: "seqid ?s1 = nth_seqid n"
      using Cons.prems(4) by simp
    obtain tr s' where r: "run_ticks ins ?s1 = Some (tr, s')"
      and tx: "tx_ticks_from (Suc k) tr = tx_schedule (Suc k) (length ins) (wakes ?s1)"
      and ids: "map packet_seqid (concat (map sent_packets tr)) =
        map (\<lambda>j. Some (nth_seqid j)) [n..<n + (length ins + unat (wakes ?s1) - 1) div 5]"
      using Cons.IH [OF tins w1 q1, of "Suc k"] by blast
    have run: "run_ticks (i # ins) s = Some ([] # tr, s')"
      using idle(2) r by simp
    have a: "tx_ticks_from k ([] # tr) = tx_schedule k (length (i # ins)) (wakes s)"
      using tx idle(1) by simp
    have "length ins + unat (wakes ?s1) - 1 = length (i # ins) + unat (wakes s) - 1"
      using u by simp
    then have "map packet_seqid (concat (map sent_packets ([] # tr))) =
        map (\<lambda>j. Some (nth_seqid j)) [n..<n + (length (i # ins) + unat (wakes s) - 1) div 5]"
      using ids by simp
    then show ?thesis using run a by blast
  qed
qed

lemma run_ticks_schedule:
  assumes "list_all (\<lambda>i. temp_in_range (snd i)) ins"
  shows "\<exists>tr s'. run_ticks ins s = Some (tr, s')
    \<and> tx_ticks_from k tr = tx_schedule k (length ins) (wakes s)"
  using assms
proof (induction ins arbitrary: s k)
  case Nil
  show ?case by simp
next
  case (Cons i ins)
  have ti: "temp_in_range (snd i)" and tins: "list_all (\<lambda>i. temp_in_range (snd i)) ins"
    using Cons.prems by simp_all
  show ?case
  proof (rule cycle_tick_cases [OF ti, of s "fst i"], goal_cases transmit idle)
    case (transmit s1)
    obtain tr s' where r: "run_ticks ins s1 = Some (tr, s')"
      and tx: "tx_ticks_from (Suc k) tr = tx_schedule (Suc k) (length ins) (wakes s1)"
      using Cons.IH [OF tins, of s1 "Suc k"] by blast
    show ?thesis using transmit r tx by simp
  next
    case idle
    obtain tr s' where r: "run_ticks ins (s\<lparr>wakes := wakes s + 1\<rparr>) = Some (tr, s')"
      and tx: "tx_ticks_from (Suc k) tr =
        tx_schedule (Suc k) (length ins) (wakes (s\<lparr>wakes := wakes s + 1\<rparr>))"
      using Cons.IH [OF tins, of "s\<lparr>wakes := wakes s + 1\<rparr>" "Suc k"] by blast
    show ?thesis using idle r tx by simp
  qed
qed

lemma run_tx_ticks_schedule:
  assumes "list_all (\<lambda>i. temp_in_range (snd i)) ins"
  shows "run_tx_ticks ins s = Some (tx_schedule 1 (length ins) (wakes s))"
  using run_ticks_schedule [OF assms, of s 1] by (auto simp add: run_tx_ticks_def)

lemma tx_schedule_12_from_5: "tx_schedule 1 12 5 = [1, 6, 11]"
  by code_simp

lemma tx_schedule_12_from_1: "tx_schedule 1 12 1 = [5, 10]"
  by code_simp

lemma temps_replicate: "temp_in_range t \<Longrightarrow> list_all (\<lambda>i. temp_in_range (snd i)) (replicate n (adc, t))"
  by (induction n) simp_all

lemma run_seqids_init:
  assumes "list_all (\<lambda>i. temp_in_range (snd i)) ins"
  shows "run_seqids ins init_node =
    Some (map (\<lambda>j. Some (nth_seqid j)) [0..<(length ins + 4) div 5])"
proof -
  have w: "1 \<le> unat (wakes init_node)" "unat (wakes init_node) \<le> WAKE_FREQ"
    by (simp_all add: init_node_def WAKE_FREQ_def)
  have q: "seqid init_node = nth_seqid 0"
    by (simp add: init_node_def nth_seqid_def)
  have u: "length ins + unat (wakes init_node) - 1 = length ins + 4"
    by (simp add: init_node_def WAKE_FREQ_def)
  show ?thesis
    using run_ticks_props [OF assms w q, of 1] unfolding u
    by (auto simp add: run_seqids_def)
qed

subsection \<open>The wake counter along a run\<close>

lemma reachable_wakes:
  assumes "reachable s"
  shows "1 \<le> unat (wakes s) \<and> unat (wakes s) \<le> WAKE_FREQ"
  using assms
proof (induction rule: reachable.induct)
  case reachable_init
  show ?case by (simp add: init_node_def WAKE_FREQ_def)
next
  case (reachable_tick s adc temp evs s')
  show ?case
  proof (cases "unat (wakes s) = WAKE_FREQ")
    case True
    then have "wakes s' = 1"
      using cycle_tick_Some_wakes [OF reachable_tick.hyps(2)] by simp
    then show ?thesis by (simp add: WAKE_FREQ_def)
  next
    case False
    then have "wakes s' = wakes s + 1"
      using cycle_tick_Some_wakes [OF reachable_tick.hyps(2)] by simp
    moreover have "unat (wakes s) < 5"
      using False reachable_tick.IH by (simp add: WAKE_FREQ_def)
    ultimately show ?thesis by (simp add: WAKE_FREQ_def unat_word_ariths)
  qed
qed

lemma cycle_tick_wakes_step:
  assumes c: "cycle_tick adc t s = Some (evs, s')" and le: "unat (wakes s) \<le> WAKE_FREQ"
  shows "(sent_packets evs \<noteq> [] \<longleftrightarrow> unat (wakes s) = WAKE_FREQ)
    \<and> unat (wakes s') = (if sent_packets evs \<noteq> [] then 1 else unat (wakes s) + 1)"
proof (cases "unat (wakes s) = WAKE_FREQ")
  case True
  then show ?thesis using cycle_tick_Some_wakes [OF c] by simp
next
  case False
  then have "wakes s' = wakes s + 1" "evs = []"
    using cycle_tick_Some_wakes [OF c] by simp_all
  moreover have "unat (wakes s) < 5"
    using False le by (simp add: WAKE_FREQ_def)
  ultimately show ?thesis using False by (simp add: unat_word_ariths)
qed

lemma cycle_tick_returns:
  assumes "temp_in_range t"
  shows "\<exists>evs s'. cycle_tick adc t s = Some (evs, s')"
  by (rule cycle_tick_cases [OF assms, of s adc]) blast+

lemma run_ticks_reachable:
  assumes "run_ticks ins s = Some (tr, s')" and "reachable s"
  shows "reachable s'"
  using assms
proof (induction ins arbitrary: s tr)
  case Nil
  then show ?case by simp
next
  case (Cons i ins)
  from Cons.prems(1) obtain evs s1 tr1
    where c: "cycle_tick (fst i) (snd i) s = Some (evs, s1)"
      and r: "run_ticks ins s1 = Some (tr1, s')"
    by (auto split: bind_splits)
  have "reachable s1" using Cons.prems(2) c by (rule reachable_tick)
  with r show ?case by (rule Cons.IH)
qed

lemma run_ticks_wakes:
  assumes "list_all (\<lambda>i. temp_in_range (snd i)) ins"
    and "1 \<le> unat (wakes s)" and "unat (wakes s) \<le> WAKE_FREQ"
  shows "\<exists>tr s'. run_ticks ins s = Some (tr, s')
    \<and> unat (wakes s') = (length ins + unat (wakes s) - 1) mod 5 + 1"
  using assms
proof (induction ins arbitrary: s)
  case Nil
  then show ?case by (simp add: WAKE_FREQ_def)
next
  case (Cons i ins)
  have ti: "temp_in_range (snd i)" and tins: "list_all (\<lambda>i. temp_in_range (snd i)) ins"
    using Cons.prems(1) by simp_all
  show ?case
  proof (rule cycle_tick_cases [OF ti, of s "fst i"], goal_cases transmit idle)
    case (transmit s1)
    have w1: "1 \<le> unat (wakes s1)" "unat (wakes s1) \<le> WAKE_FREQ"
      using transmit(3) by (simp_all add: WAKE_FREQ_def)
    obtain tr s' where r: "run_ticks ins s1 = Some (tr, s')"
      and u: "unat (wakes s') = (length ins + unat (wakes s1) - 1) mod 5 + 1"
      using Cons.IH [OF tins w1] by blast
    have "unat (wakes s') = (length (i # ins) + unat (wakes s) - 1) mod 5 + 1"
      using u transmit(1,3) by (simp add: WAKE_FREQ_def)
    then show ?thesis using transmit(2) r by simp
  next
    case idle
    let ?s1 = "s\<lparr>wakes := wakes s + 1\<rparr>"
    have lt: "unat (wakes s) < 5"
      using idle(1) Cons.prems(3) by (simp add: WAKE_FREQ_def)
    then have v: "unat (wakes s + 1) = unat (wakes s) + 1"
      by (simp add: unat_word_ariths)
    have w1: "1 \<le> unat (wakes ?s1)" "unat (wakes ?s1) \<le> WAKE_FREQ"
      using v lt by (simp_all add: WAKE_FREQ_def)
    obtain tr s' where r: "run_ticks ins ?s1 = Some (tr, s')"
      and u: "unat (wakes s') = (length ins + unat (wakes ?s1) - 1) mod 5 + 1"
      using Cons.IH [OF tins w1] by blast
    have "length ins + unat (wakes ?s1) - 1 = length (i # ins) + unat (wakes s) - 1"
      using v by simp
    then have "unat (wakes s') = (length (i # ins) + unat (wakes s) - 1) mod 5 + 1"
      using u by simp
    then show ?thesis using idle(2) r by simp
  qed
qed

subsection \<open>The example packet\<close>

lemma utoa_digits_3180: "utoa_digits 3180 = ascii ''3180''"
  by code_simp

lemma dtostrf_digits_214: "dtostrf_digits 214 = ascii ''21.4''"
  by code_simp

lemma get_batt_voltage_987: "get_batt_voltage 987 = 3180"
  by (simp add: get_batt_voltage_def)

lemma packet_bytes_example:
  "packet_bytes (of_char CHR ''a'') (get_batt_voltage 987) 214 MODE_BOOSTOFF =
     ascii ''1aV3180T21.4X5,10,1[JH9]''"
  by (simp add: packet_bytes_def get_batt_voltage_987 utoa_digits_3180 [simplified]
      dtostrf_digits_214 [simplified] HOPS_def NODE_ID_def utoa_digits_WAKE_FREQ
      utoa_digits_TX_POWER_DBM utoa_digits_small digit_byte_def)

lemma encode_packet_example:
  assumes "seqid s = of_char CHR ''a''" and "power_mode s = MODE_BOOSTOFF"
  shows "encode_packet 987 214 s \<bind> buffer_string = Some (ascii ''1aV3180T21.4X5,10,1[JH9]'')"
proof -
  have t: "temp_in_range 214" by (simp add: temp_in_range_def)
  have nz: "seqid s \<noteq> 0" using assms(1) by simp
  obtain s' where e: "encode_packet 987 214 s = Some s'"
    and b: "buffer_string s' = Some (tick_packet 987 214 s)"
    using encode_packet_buffer_string [OF t, of 987 s] by blast
  have "tick_packet 987 214 s = ascii ''1aV3180T21.4X5,10,1[JH9]''"
    using packet_bytes_example by (simp add: tick_packet_nonzero [OF nz] assms)
  then show ?thesis using e b by simp
qed

section \<open>Power mode hysteresis (claim C1)\<close>

text \<open>
  Claim C1.  On every transmit tick the voltage sampled on that tick decides the power
  mode: from \<open>MODE_BOOSTOFF\<close> the node goes to \<open>MODE_WDT\<close> if and only if the voltage is
  strictly below 1350 mV, from \<open>MODE_WDT\<close> back to \<open>MODE_BOOSTOFF\<close> if and only if it is
  strictly above 1400 mV, and a voltage from 1350 to 1400 mV leaves the mode as it was.
\<close>

theorem power_mode_hysteresis:
  assumes "unat (wakes s) = WAKE_FREQ" and "temp_in_range t"
  shows "\<exists>evs s'. cycle_tick adc t s = Some (evs, s')
    \<and> Sample_Voltage adc \<in> set evs
    \<and> (power_mode s = MODE_BOOSTOFF \<longrightarrow>
         (power_mode s' = MODE_WDT \<longleftrightarrow> unat (get_batt_voltage adc) < 1350))
    \<and> (power_mode s = MODE_WDT \<longrightarrow>
         (power_mode s' = MODE_BOOSTOFF \<longleftrightarrow> unat (get_batt_voltage adc) > 1400))
    \<and> (1350 \<le> unat (get_batt_voltage adc) \<and> unat (get_batt_voltage adc) \<le> 1400 \<longrightarrow>
         power_mode s' = power_mode s)"
proof -
  obtain s' where e: "cycle_tick adc t s =
      Some ([Sample_Voltage adc, Sample_Temperature t, Encode_Packet (tick_packet adc t s),
             Radio_Send (tick_packet adc t s) TX_POWER_DBM], s')"
    and pm: "power_mode s' = update_power_mode (get_batt_voltage adc) (power_mode s)"
    using cycle_tick_transmit [OF assms, of adc] by blast
  show ?thesis
    using e pm
    by (cases "power_mode s")
      (simp_all add: update_power_mode_def POWER_MODE_WDT_THRESH_def POWER_MODE_WDT_HYST_def)
qed

theorem power_mode_hysteresis_witness:
  "unat (wakes init_node) = WAKE_FREQ \<and> temp_in_range 214
    \<and> unat (get_batt_voltage 400) < 1350
    \<and> (\<exists>evs s'. cycle_tick 400 214 init_node = Some (evs, s') \<and> power_mode s' = MODE_WDT)"
proof -
  have w: "unat (wakes init_node) = WAKE_FREQ"
    by (simp add: init_node_def WAKE_FREQ_def)
  have t: "temp_in_range 214"
    by (simp add: temp_in_range_def)
  have v: "unat (get_batt_voltage 400) < 1350"
    by (simp add: get_batt_voltage_def)
  have m: "power_mode init_node = MODE_BOOSTOFF"
    by (simp add: init_node_def)
  show ?thesis
    using power_mode_hysteresis [OF w t, of 400] w t v m by auto
qed

section \<open>The transmit tick (claim C2)\<close>



section \<open>The idle tick (claim C3)\<close>

text \<open>
  Claim C3.  A tick on which the wake counter is from 1 to \<open>WAKE_FREQ - 1\<close> does nothing
  to the outside world and changes nothing in the node but the wake counter, which goes up
  by one: no sample, no packet, no transmission, the same sequence id and power mode.
\<close>

theorem idle_tick:
  assumes "1 \<le> unat (wakes s)" and "unat (wakes s) \<le> WAKE_FREQ - 1"
  shows "cycle_tick adc t s = Some ([], s\<lparr>wakes := wakes s + 1\<rparr>)
    \<and> unat (wakes s + 1) = unat (wakes s) + 1"
proof -
  have "unat (wakes s) \<noteq> WAKE_FREQ"
    using assms(2) by (simp add: WAKE_FREQ_def)
  then have c: "cycle_tick adc t s = Some ([], s\<lparr>wakes := wakes s + 1\<rparr>)"
    by (rule cycle_tick_idle)
  have "unat (wakes s + 1) = unat (wakes s) + 1"
    using assms(2) by (simp add: WAKE_FREQ_def unat_word_ariths)
  with c show ?thesis by simp
qed

theorem idle_tick_witness:
  "1 \<le> unat (wakes (init_node\<lparr>wakes := 3\<rparr>))
    \<and> unat (wakes (init_node\<lparr>wakes := 3\<rparr>)) \<le> WAKE_FREQ - 1
    \<and> cycle_tick 987 214 (init_node\<lparr>wakes := 3\<rparr>) = Some ([], init_node\<lparr>wakes := 4\<rparr>)"
  using idle_tick [of "init_node\<lparr>wakes := 3\<rparr>" 987 214] by (simp add: WAKE_FREQ_def)

section \<open>Sequence ids (claim C4)\<close>

text \<open>
  Claim C4.  In any run from power-on, of any length, the packets sent carry the sequence
  ids a, b, ..., z, b, c, ... in this order: the \<open>j\<close>-th packet carries \<open>nth_seqid j\<close>,
  no packet after the first carries a, every id is from a to z, and no packet carries the
  id of the packet before it.  A run of \<open>n\<close> ticks sends \<open>(n + 4) div 5\<close> packets, so
  runs reach every position of the sequence.
\<close>

theorem seqid_sequence:
  assumes "list_all (\<lambda>i. temp_in_range (snd i)) ins"
  shows "\<exists>ids. run_seqids ins init_node = Some ids
    \<and> length ids = (length ins + 4) div 5
    \<and> ids = map (\<lambda>j. Some (nth_seqid j)) [0..<length ids]
    \<and> (\<forall>j < length ids. 0 < j \<longrightarrow> ids ! j \<noteq> Some (of_char CHR ''a''))
    \<and> (\<forall>j < length ids. \<exists>c. ids ! j = Some c \<and> of_char CHR ''a'' \<le> c \<and> c \<le> of_char CHR ''z'')
    \<and> (\<forall>j. Suc j < length ids \<longrightarrow> ids ! Suc j \<noteq> ids ! j)
    \<and> nth_seqid 0 = of_char CHR ''a'' \<and> nth_seqid 1 = of_char CHR ''b''
    \<and> nth_seqid 25 = of_char CHR ''z'' \<and> nth_seqid 26 = of_char CHR ''b''
    \<and> nth_seqid 27 = of_char CHR ''c''"
proof -
  let ?ids = "map (\<lambda>j. Some (nth_seqid j)) [0..<(length ins + 4) div 5]"
  have r: "run_seqids ins init_node = Some ?ids"
    using assms by (rule run_seqids_init)
  have l: "length ?ids = (length ins + 4) div 5" by simp
  have n: "?ids ! j = Some (nth_seqid j)" if "j < length ?ids" for j
    using that by simp
  have a: "\<forall>j < length ?ids. 0 < j \<longrightarrow> ?ids ! j \<noteq> Some (of_char CHR ''a'')"
    using n nth_seqid_not_a by simp
  have b: "\<forall>j < length ?ids. \<exists>c. ?ids ! j = Some c \<and> of_char CHR ''a'' \<le> c \<and> c \<le> of_char CHR ''z''"
    using n nth_seqid_range by simp
  have c: "\<forall>j. Suc j < length ?ids \<longrightarrow> ?ids ! Suc j \<noteq> ?ids ! j"
    using n nth_seqid_Suc_neq by simp
  have d: "?ids = map (\<lambda>j. Some (nth_seqid j)) [0..<length ?ids]" by simp
  have v: "nth_seqid 0 = of_char CHR ''a'' \<and> nth_seqid 1 = of_char CHR ''b''
    \<and> nth_seqid 25 = of_char CHR ''z'' \<and> nth_seqid 26 = of_char CHR ''b''
    \<and> nth_seqid 27 = of_char CHR ''c''"
    by (simp add: nth_seqid_def)
  show ?thesis using r l d a b c v by blast
qed

theorem seqid_sequence_witness:
  "list_all (\<lambda>i. temp_in_range (snd i)) (replicate 12 (987 :: 16 word, 214))
    \<and> run_seqids (replicate 12 (987, 214)) init_node =
        Some [Some (of_char CHR ''a''), Some (of_char CHR ''b''), Some (of_char CHR ''c'')]"
proof -
  have "temp_in_range 214" by (simp add: temp_in_range_def)
  then have t: "list_all (\<lambda>i. temp_in_range (snd i)) (replicate 12 (987 :: 16 word, 214))"
    by (rule temps_replicate)
  obtain ids where r: "run_seqids (replicate 12 (987, 214)) init_node = Some ids"
    and l: "length ids = (length (replicate 12 (987 :: 16 word, 214 :: int)) + 4) div 5"
    and i: "ids = map (\<lambda>j. Some (nth_seqid j)) [0..<length ids]"
    using seqid_sequence [OF t] by blast
  have u: "[0..<3] = [0, 1, 2 :: nat]" by code_simp
  have "length ids = 3" using l by simp
  then have "ids = map (\<lambda>j. Some (nth_seqid j)) [0..<3]" using i by simp
  then have "ids = [Some (of_char CHR ''a''), Some (of_char CHR ''b''), Some (of_char CHR ''c'')]"
    unfolding u by (simp add: nth_seqid_def)
  with r t show ?thesis by simp
qed

section \<open>Twelve ticks (claim C5)\<close>

text \<open>
  Claim C5, amended.  The wake counter starts at \<open>WAKE_FREQ\<close>, so from power-on twelve
  ticks send three packets, on ticks 1, 6 and 11.  Twelve ticks send exactly two packets,
  on ticks 5 and 10, from a state whose wake counter is 1, as it is right after a
  transmission.
\<close>

theorem twelve_ticks:
  assumes "length ins = 12" and "list_all (\<lambda>i. temp_in_range (snd i)) ins"
  shows "run_tx_ticks ins init_node = Some [1, 6, 11]
    \<and> (\<forall>s. wakes s = 1 \<longrightarrow> run_tx_ticks ins s = Some [5, 10])"
  using assms(1)
  by (simp add: run_tx_ticks_schedule [OF assms(2)] init_node_def WAKE_FREQ_def
      tx_schedule_12_from_5 [simplified] tx_schedule_12_from_1 [simplified])

theorem twelve_ticks_witness:
  "length (replicate 12 (987 :: 16 word, 214 :: int)) = 12
    \<and> list_all (\<lambda>i. temp_in_range (snd i)) (replicate 12 (987 :: 16 word, 214))
    \<and> run_tx_ticks (replicate 12 (987, 214)) init_node = Some [1, 6, 11]
    \<and> run_tx_ticks (replicate 12 (987, 214)) (init_node\<lparr>wakes := 1\<rparr>) = Some [5, 10]"
proof -
  have "temp_in_range 214" by (simp add: temp_in_range_def)
  then have t: "list_all (\<lambda>i. temp_in_range (snd i)) (replicate 12 (987 :: 16 word, 214))"
    by (rule temps_replicate)
  have l: "length (replicate 12 (987 :: 16 word, 214 :: int)) = 12" by simp
  have w: "wakes (init_node\<lparr>wakes := 1\<rparr>) = 1" by simp
  show ?thesis using twelve_ticks [OF l t] t l w by blast
qed

text \<open>
  As stated, with the run starting at power-on, claim C5 fails: the packets of twelve
  ticks do not go out on ticks 5 and 10.
\<close>

theorem twelve_ticks_init_counterexample:
  "run_tx_ticks (replicate 12 (987, 214)) init_node \<noteq> Some [5, 10]"
proof -
  have "temp_in_range 214" by (simp add: temp_in_range_def)
  then have "list_all (\<lambda>i. temp_in_range (snd i)) (replicate 12 (987 :: 16 word, 214))"
    by (rule temps_replicate)
  then have "run_tx_ticks (replicate 12 (987, 214)) init_node =
      Some (tx_schedule 1 (length (replicate 12 (987 :: 16 word, 214 :: int))) (wakes init_node))"
    by (rule run_tx_ticks_schedule)
  then have "run_tx_ticks (replicate 12 (987, 214)) init_node = Some [1, 6, 11]"
    by (simp add: init_node_def WAKE_FREQ_def tx_schedule_12_from_5 [simplified])
  then show ?thesis by simp
qed

section \<open>The example packet (claim C6)\<close>

text \<open>
  Claim C6, amended.  With hop count 1, sequence id a, an ADC reading that gives 3180 mV,
  21.4 degrees and node id JH9, and the node in \<open>MODE_BOOSTOFF\<close>, the encoder leaves
  exactly \<^verbatim>\<open>1aV3180T21.4X5,10,1[JH9]\<close> in the buffer, whatever the buffer held before:
  the field \<^verbatim>\<open>X5,10,1\<close> (wake frequency, transmit power, power mode) stands before the
  node id.
\<close>

theorem encoder_example:
  assumes "seqid s = of_char CHR ''a''" and "power_mode s = MODE_BOOSTOFF"
  shows "HOPS = ''1'' \<and> NODE_ID = ''JH9'' \<and> unat (get_batt_voltage 987) = 3180
    \<and> encode_packet 987 214 s \<bind> buffer_string = Some (ascii ''1aV3180T21.4X5,10,1[JH9]'')"
  using encode_packet_example [OF assms]
  by (simp add: HOPS_def NODE_ID_def get_batt_voltage_987)

theorem encoder_example_witness:
  "seqid init_node = of_char CHR ''a'' \<and> power_mode init_node = MODE_BOOSTOFF
    \<and> encode_packet 987 214 init_node \<bind> buffer_string =
        Some (ascii ''1aV3180T21.4X5,10,1[JH9]'')"
proof -
  have a: "seqid init_node = of_char CHR ''a''" by (simp add: init_node_def)
  have b: "power_mode init_node = MODE_BOOSTOFF" by (simp add: init_node_def)
  show ?thesis using encoder_example [OF a b] a b by blast
qed

text \<open>
  As stated, claim C6 fails: the packet is not \<^verbatim>\<open>1aV3180T21.4[JH9]\<close>.
\<close>

theorem encoder_example_counterexample:
  "encode_packet 987 214 init_node \<bind> buffer_string \<noteq> Some (ascii ''1aV3180T21.4[JH9]'')"
proof -
  have "encode_packet 987 214 init_node \<bind> buffer_string =
      Some (ascii ''1aV3180T21.4X5,10,1[JH9]'')"
    by (rule encode_packet_example) (simp_all add: init_node_def)
  then show ?thesis by simp
qed

section \<open>The packet fits the buffer (claim C7)\<close>

text \<open>
  Claim C7.  From any state, for any voltage and any temperature in range, composing the
  packet succeeds: no store leaves the 64 bytes of \<open>packetbuf\<close>, the packet pointer ends
  inside it, and the string with its terminating zero is at most 64 bytes long.
\<close>

theorem encode_packet_within_buffer:
  assumes "temp_in_range t"
  shows "\<exists>s' pkt. encode_packet adc t s = Some s' \<and> p s' < PACKETBUF_SIZE
    \<and> buffer_string s' = Some pkt \<and> length pkt + 1 \<le> PACKETBUF_SIZE"
proof -
  obtain s' where e: "encode_packet adc t s = Some s'"
    and b: "buffer_string s' = Some (tick_packet adc t s)"
    and pl: "p s' = length (packet_bytes (seqid s) (get_batt_voltage adc) t (power_mode s))"
    and pb: "p s' < PACKETBUF_SIZE"
    using encode_packet_buffer_string [OF assms, of adc s] by blast
  have "length (tick_packet adc t s) \<le> p s'"
    unfolding tick_packet_def pl by (rule length_takeWhile_le)
  then show ?thesis using e b pb by simp
qed

theorem encode_packet_within_buffer_witness:
  "temp_in_range (-550)
    \<and> (\<exists>s' pkt. encode_packet 65535 (-550) init_node = Some s' \<and> p s' < PACKETBUF_SIZE
          \<and> buffer_string s' = Some pkt \<and> length pkt + 1 \<le> PACKETBUF_SIZE)"
proof -
  have t: "temp_in_range (-550)"
    by (simp add: temp_in_range_def)
  show ?thesis
    using encode_packet_within_buffer [OF t, of 65535 init_node] t by simp
qed

section \<open>The wake counter (claim C8)\<close>

text \<open>
  Claim C8.  Every run of ticks from power-on returns, and after \<open>n\<close> ticks the wake
  counter is \<open>(n + 4) mod 5 + 1\<close>: 5 at power-on, then 1, 2, 3, 4, 5, 1, ...  In every
  state reachable from power-on the wake counter is from 1 to \<open>WAKE_FREQ\<close>; from such a
  state every tick returns and reaches such a state again; and a tick sends a packet
  exactly when the counter is \<open>WAKE_FREQ\<close>, leaving it at 1 when it sent one and one
  higher when it did not.
\<close>

theorem wakes_invariant:
  assumes "list_all (\<lambda>i. temp_in_range (snd i)) ins"
  shows "(\<exists>tr s. run_ticks ins init_node = Some (tr, s) \<and> reachable s
          \<and> unat (wakes s) = (length ins + 4) mod 5 + 1)
    \<and> (\<forall>s. reachable s \<longrightarrow>
          1 \<le> unat (wakes s) \<and> unat (wakes s) \<le> WAKE_FREQ
          \<and> (\<forall>adc t. temp_in_range t \<longrightarrow>
                (\<exists>evs s'. cycle_tick adc t s = Some (evs, s') \<and> reachable s'))
          \<and> (\<forall>adc t evs s'. cycle_tick adc t s = Some (evs, s') \<longrightarrow>
                (sent_packets evs \<noteq> [] \<longleftrightarrow> unat (wakes s) = WAKE_FREQ)
                \<and> unat (wakes s') = (if sent_packets evs \<noteq> [] then 1 else unat (wakes s) + 1)))"
proof -
  have w: "1 \<le> unat (wakes init_node)" "unat (wakes init_node) \<le> WAKE_FREQ"
    by (simp_all add: init_node_def WAKE_FREQ_def)
  have n: "length ins + unat (wakes init_node) - 1 = length ins + 4"
    by (simp add: init_node_def WAKE_FREQ_def)
  obtain tr s where r: "run_ticks ins init_node = Some (tr, s)"
    and u: "unat (wakes s) = (length ins + 4) mod 5 + 1"
    using run_ticks_wakes [OF assms w] unfolding n by blast
  have rs: "reachable s"
    using r reachable_init by (rule run_ticks_reachable)
  have run: "\<exists>tr s. run_ticks ins init_node = Some (tr, s) \<and> reachable s
      \<and> unat (wakes s) = (length ins + 4) mod 5 + 1"
    using r rs u by blast
  have inv: "1 \<le> unat (wakes s) \<and> unat (wakes s) \<le> WAKE_FREQ" if "reachable s" for s
    using that by (rule reachable_wakes)
  have ret: "\<exists>evs s'. cycle_tick adc t s = Some (evs, s') \<and> reachable s'"
    if "reachable s" "temp_in_range t" for s adc t
    using cycle_tick_returns [OF that(2), of adc s] reachable_tick [OF that(1)] by blast
  have step: "(sent_packets evs \<noteq> [] \<longleftrightarrow> unat (wakes s) = WAKE_FREQ)
      \<and> unat (wakes s') = (if sent_packets evs \<noteq> [] then 1 else unat (wakes s) + 1)"
    if "reachable s" "cycle_tick adc t s = Some (evs, s')" for s adc t evs s'
    using that(2) inv [OF that(1)] by (intro cycle_tick_wakes_step) simp_all
  show ?thesis using run inv ret step by blast
qed

theorem wakes_invariant_witness:
  "list_all (\<lambda>i. temp_in_range (snd i)) (replicate 6 (987 :: 16 word, 214))
    \<and> (\<exists>tr s. run_ticks (replicate 6 (987, 214)) init_node = Some (tr, s) \<and> reachable s
          \<and> unat (wakes s) = 1)
    \<and> list_all (\<lambda>i. temp_in_range (snd i)) (replicate 9 (987 :: 16 word, 214))
    \<and> (\<exists>tr s. run_ticks (replicate 9 (987, 214)) init_node = Some (tr, s) \<and> reachable s
          \<and> unat (wakes s) = 4)"
proof -
  have t: "temp_in_range 214" by (simp add: temp_in_range_def)
  have t6: "list_all (\<lambda>i. temp_in_range (snd i)) (replicate 6 (987 :: 16 word, 214))"
    using t by (rule temps_replicate)
  have t9: "list_all (\<lambda>i. temp_in_range (snd i)) (replicate 9 (987 :: 16 word, 214))"
    using t by (rule temps_replicate)
  have a: "\<exists>tr s. run_ticks (replicate 6 (987, 214)) init_node = Some (tr, s) \<and> reachable s
      \<and> unat (wakes s) = 1"
    using wakes_invariant [OF t6, THEN conjunct1] by simp
  have b: "\<exists>tr s. run_ticks (replicate 9 (987, 214)) init_node = Some (tr, s) \<and> reachable s
      \<and> unat (wakes s) = 4"
    using wakes_invariant [OF t9, THEN conjunct1] by simp
  show ?thesis using t6 t9 a b by blast
qed

section \<open>The first tick (claim C9)\<close>

text \<open>
  Claim C9.  The wake counter starts at \<open>WAKE_FREQ\<close>, so the first tick after power-on
  is a transmit tick: tick 1 sends a packet, and that packet carries the sequence id a.
\<close>

theorem first_tick_transmits:
  assumes "temp_in_range t"
  shows "wakes init_node = of_nat WAKE_FREQ
    \<and> (\<exists>pkt s'. cycle_tick adc t init_node =
          Some ([Sample_Voltage adc, Sample_Temperature t, Encode_Packet pkt,
                 Radio_Send pkt TX_POWER_DBM], s')
        \<and> packet_seqid pkt = Some (of_char CHR ''a''))
    \<and> run_tx_ticks [(adc, t)] init_node = Some [1]"
proof -
  have w: "unat (wakes init_node) = WAKE_FREQ"
    by (simp add: init_node_def WAKE_FREQ_def)
  have nz: "seqid init_node \<noteq> 0"
    by (simp add: init_node_def)
  obtain s' where c: "cycle_tick adc t init_node =
      Some ([Sample_Voltage adc, Sample_Temperature t, Encode_Packet (tick_packet adc t init_node),
             Radio_Send (tick_packet adc t init_node) TX_POWER_DBM], s')"
    using cycle_tick_transmit [OF w assms, of adc] by blast
  have q: "packet_seqid (tick_packet adc t init_node) = Some (of_char CHR ''a'')"
    using packet_seqid_tick_packet [OF nz, of adc t] by (simp add: init_node_def)
  have r: "run_tx_ticks [(adc, t)] init_node = Some [1]"
    using c by (simp add: run_tx_ticks_def)
  have "wakes init_node = of_nat WAKE_FREQ" by (simp add: init_node_def)
  then show ?thesis using c q r by blast
qed

theorem first_tick_transmits_witness:
  "temp_in_range 214 \<and> run_tx_ticks [(987, 214)] init_node = Some [1]"
proof -
  have t: "temp_in_range 214" by (simp add: temp_in_range_def)
  show ?thesis using first_tick_transmits [OF t, of 987] t by blast
qed

section \<open>Battery voltage (claim C10)\<close>

text \<open>
  Claim C10.  For every 10-bit ADC result, 0 to 1023, \<open>get_batt_voltage\<close> returns exactly
  \<open>(r * 3300) div 1024\<close>: the 32-bit product does not wrap, the quotient is at most 3296,
  so the cast to 16 bits loses nothing, and \<^verbatim>\<open>utoa\<close> prints it in at most 4 digits.
\<close>

theorem get_batt_voltage_10bit:
  assumes "unat adc \<le> 1023"
  shows "unat ((ucast adc :: 32 word) * 3300) = unat adc * 3300
    \<and> unat (get_batt_voltage adc) = unat adc * 3300 div 1024
    \<and> unat (get_batt_voltage adc) \<le> 3296
    \<and> length (utoa_digits (unat (get_batt_voltage adc))) \<le> 4"
proof -
  have w: "unat (ucast adc :: 32 word) = unat adc"
    using assms by (simp add: unsigned_ucast_eq take_bit_nat_eq_self)
  have m: "unat ((ucast adc :: 32 word) * 3300) = unat adc * 3300"
    using assms by (simp add: unat_word_ariths w)
  have q: "unat adc * 3300 div 1024 \<le> 3296"
    using assms by simp
  then have v: "unat (get_batt_voltage adc) = unat adc * 3300 div 1024"
    by (simp add: get_batt_voltage_unat)
  have "unat (get_batt_voltage adc) < 10 ^ 4"
    using q v by simp
  then have "length (utoa_digits (unat (get_batt_voltage adc))) \<le> 4"
    by (rule utoa_digits_length) simp
  then show ?thesis using m v q by simp
qed

theorem get_batt_voltage_10bit_witness:
  "unat (1023 :: 16 word) \<le> 1023 \<and> unat (get_batt_voltage 1023) = 3296
    \<and> length (utoa_digits (unat (get_batt_voltage 1023))) \<le> 4"
  using get_batt_voltage_10bit [of 1023] by auto

end
